theory Spec2Isabelle
  imports Main "HOL-Library.AList"
begin

section \<open>The accepter package: data model\<close>

text \<open>
  The Go package \<^verbatim>\<open>accepter\<close> (file \<^verbatim>\<open>accepter.go\<close>) is embedded function by function.
  The Accepter's fields and the objects it points to (cancellation contexts, TLS
  configurations) are one record of state that every method takes and returns.
  Whatever the code obtains from outside (the result of \<^verbatim>\<open>lis.Accept()\<close>, of
  \<^verbatim>\<open>lis.Close()\<close>, of \<^verbatim>\<open>net.Listen\<close>, of \<^verbatim>\<open>tls.LoadX509KeyPair\<close>, the case a
  \<^verbatim>\<open>select\<close> takes, the return of the handler) is an explicit argument. A method that
  blocks takes a script: the list of things that happen while it runs, in order. An
  entry of the script is either the answer to the method's own blocking call or a write
  to the shared fields made by another goroutine in the meantime.
\<close>

type_synonym conn = nat
type_synonym cancel_id = nat
type_synonym addr = nat
type_synonym handler = nat
type_synonym certificate = string

text \<open>
  A Go \<^verbatim>\<open>error\<close> value. The accept loop only asks whether the error is a
  \<^verbatim>\<open>net.Error\<close> and, if so, what its \<^verbatim>\<open>Temporary()\<close> method answers.
\<close>

datatype error = Error string | NetError string bool

fun Temporary :: "error \<Rightarrow> bool" where
  "Temporary (NetError msg t) = t"
| "Temporary (Error msg) = False"

text \<open>
  \<^verbatim>\<open>context.Context\<close>: the background context or a context made by
  \<^verbatim>\<open>context.WithCancel\<close> from a parent. The state keeps, for each cancel function
  handed out so far, whether it has been called.
\<close>

datatype "context" = Background | CancelCtx cancel_id "context"

datatype connData = ConnData (ctx_of: "context") (conn_of: conn)

text \<open>
  A \<^verbatim>\<open>net.Listener\<close>: a plain listener, or the listener that
  \<^verbatim>\<open>tls.NewListener(l, config)\<close> wraps around \<^verbatim>\<open>l\<close> with the configuration object at
  an address.
\<close>

datatype listener = Listener nat | TLSListener listener addr

record tls_Config =
  Certificates :: "certificate list"
  GetCertificate :: "nat option"

text \<open>
  The calls the code makes on its collaborators, logged in program order. Reads and
  writes of the registry are logged too, so that their order relative to the other calls
  can be stated.
\<close>

datatype effect =
    CtxCancel cancel_id
  | NetListen string string
  | Accept listener
  | ListenerClose listener
  | Go conn
  | Sleep nat
  | TimeAfter nat
  | RegistryLen nat
  | RegistryInsert conn
  | RegistryDelete conn
  | HandlerServe "context" conn
  | ConnClose conn
  | LoadX509KeyPair string string

text \<open>
  The struct \<^verbatim>\<open>Accepter\<close>. A nil pointer, interface or function value is \<open>None\<close>.
  The handler is opaque: the model sees that it is invoked and when it returns.
  The registry \<^verbatim>\<open>connDatas\<close> is an association list with one entry for each key; a nil
  map reads like the empty one, and the only write to it (in \<^verbatim>\<open>serve\<close>) happens after
  \<^verbatim>\<open>Serve\<close> has made the map. The mutex \<^verbatim>\<open>connDatasMu\<close> is not a field of the model:
  each section the code runs under the lock is one step here.
\<close>

record Accepter =
  Handler :: "handler option"
  TLSConfig :: "addr option"
  lis :: "listener option"
  ctx :: "context option"
  ctxCancel :: "cancel_id option"
  connDatas :: "(conn \<times> connData) list"

text \<open>
  The Accepter together with the objects around it: \<open>cancels\<close> holds one flag for each
  cancel function (index = identity), \<open>configs\<close> is the store of \<^verbatim>\<open>tls.Config\<close>
  objects, \<open>next_config\<close> the next free address, \<open>trace\<close> the log of effects.
\<close>

record sys = Accepter +
  cancels :: "bool list"
  configs :: "addr \<Rightarrow> tls_Config"
  next_config :: addr
  trace :: "effect list"

text \<open>
  How a call ends on a given script: it returns a value, it panics, or the script is used
  up while the call is still waiting in its blocking call (\<open>Blocked\<close>). All the
  functions below recurse on the script, so each of them is total; that a call returns
  is stated as the outcome \<open>Returns\<close>.
\<close>

datatype 'a outcome = Returns 'a | Panics | Blocked

text \<open>
  The writes to the shared fields that another goroutine can make while a call is
  blocked, and the entries of a script: \<open>Env x\<close> is the answer \<open>x\<close> to the blocking call
  of the method observed, \<open>Par v\<close> is a write \<open>v\<close> by another goroutine.
\<close>

datatype interference =
    RootCancelled
  | Registered conn "context"
  | Deregistered conn

datatype 'a event = Env 'a | Par interference

text \<open>
  The case that the \<^verbatim>\<open>select\<close> of \<^verbatim>\<open>Shutdown\<close> takes: the timer, or the deadline context
  with the value of its \<^verbatim>\<open>Err()\<close>.
\<close>

datatype select_case = After5ms | CtxDone error

section \<open>Contexts, effects and interference\<close>

definition emit :: "effect list \<Rightarrow> sys \<Rightarrow> sys" where
  "emit es s = s\<lparr>trace := trace s @ es\<rparr>"

text \<open>\<^verbatim>\<open>ctx.Done()\<close> is closed: the context or one of its ancestors has been cancelled.\<close>

fun Done :: "bool list \<Rightarrow> context \<Rightarrow> bool" where
  "Done cs Background = False"
| "Done cs (CancelCtx i parent) = ((i < length cs \<and> cs ! i) \<or> Done cs parent)"

text \<open>\<^verbatim>\<open>context.WithCancel(parent)\<close>: a new context and its cancel function.\<close>

definition context_WithCancel :: "context \<Rightarrow> sys \<Rightarrow> (context \<times> cancel_id) \<times> sys" where
  "context_WithCancel parent s =
     ((CancelCtx (length (cancels s)) parent, length (cancels s)),
      s\<lparr>cancels := cancels s @ [False]\<rparr>)"

text \<open>Calling the cancel function \<open>i\<close>.\<close>

definition cancel :: "cancel_id \<Rightarrow> sys \<Rightarrow> sys" where
  "cancel i s = emit [CtxCancel i] (s\<lparr>cancels := (cancels s)[i := True]\<rparr>)"

text \<open>
  What another goroutine may do to the shared fields while a method is blocked:
  \<open>RootCancelled\<close> is \<^verbatim>\<open>a.ctxCancel()\<close> (lines 45 and 75), \<open>Registered c cx\<close> is
  \<^verbatim>\<open>a.connDatas[conn] = connData{ctx, conn}\<close> (line 177), \<open>Deregistered c\<close> is
  \<^verbatim>\<open>delete(a.connDatas, conn)\<close> (line 188). The effects of the other goroutine are
  not logged in the trace of the method observed.
\<close>

fun interfere :: "interference \<Rightarrow> sys \<Rightarrow> sys" where
  "interfere RootCancelled s =
     (case ctxCancel s of
        None \<Rightarrow> s
      | Some i \<Rightarrow> s\<lparr>cancels := (cancels s)[i := True]\<rparr>)"
| "interfere (Registered c cx) s =
     s\<lparr>connDatas := AList.update c (ConnData cx c) (connDatas s)\<rparr>"
| "interfere (Deregistered c) s =
     s\<lparr>connDatas := AList.delete c (connDatas s)\<rparr>"

definition root_done :: "sys \<Rightarrow> bool" where
  "root_done s = (case ctx s of None \<Rightarrow> False | Some c \<Rightarrow> Done (cancels s) c)"

text \<open>The effects a method added to the log between two states.\<close>

definition new_effects :: "sys \<Rightarrow> sys \<Rightarrow> effect list" where
  "new_effects s s' = drop (length (trace s)) (trace s')"

text \<open>\<open>precedes a b xs\<close>: \<open>a\<close> occurs in \<open>xs\<close>, \<open>b\<close> occurs later, and not before.\<close>

fun precedes :: "'a \<Rightarrow> 'a \<Rightarrow> 'a list \<Rightarrow> bool" where
  "precedes a b [] = False"
| "precedes a b (x # xs) =
     (if x = b then False else if x = a then b \<in> set xs else precedes a b xs)"

section \<open>Serve: the accept loop\<close>

text \<open>
  Lines 125 to 142. The script answers each \<^verbatim>\<open>lis.Accept()\<close> with a connection
  (\<open>Env (Inr c)\<close>) or an error (\<open>Env (Inl e)\<close>); when the script is used up the loop is
  still waiting in \<^verbatim>\<open>Accept\<close>. \<^verbatim>\<open>go a.serve(conn)\<close> starts the worker and goes on: the
  worker is the function \<open>serve\<close> below, run on its own.
\<close>

fun accept_loop :: "listener \<Rightarrow> (error + conn) event list \<Rightarrow> sys \<Rightarrow> error option outcome \<times> sys" where
  "accept_loop l [] s = (Blocked, s)"
| "accept_loop l (Par i # es) s = accept_loop l es (interfere i s)"
| "accept_loop l (Env (Inr c) # es) s = accept_loop l es (emit [Accept l, Go c] s)"
| "accept_loop l (Env (Inl e) # es) s =
     (let s1 = emit [Accept l] s in
      (case ctx s1 of
         None \<Rightarrow> (Panics, s1)
       | Some c \<Rightarrow>
           if Done (cancels s1) c then (Returns None, s1)
           else if Temporary e then accept_loop l es (emit [Sleep 5] s1)
           else (Returns (Some e), s1)))"

text \<open>Lines 120 to 124: the fields set before the loop; the cancel function deferred.\<close>

definition Serve_init :: "sys \<Rightarrow> listener \<Rightarrow> cancel_id \<times> sys" where
  "Serve_init s l =
     (let s1 = s\<lparr>lis := Some l\<rparr>;
          ((c, i), s2) = context_WithCancel Background s1
      in (i, s2\<lparr>ctx := Some c, ctxCancel := Some i, connDatas := []\<rparr>))"

text \<open>
  \<^verbatim>\<open>Serve\<close>. The deferred calls run when the loop leaves, last deferred first:
  \<^verbatim>\<open>a.ctxCancel()\<close>, then \<^verbatim>\<open>a.lis.Close()\<close>, both on the values of the moment they were
  deferred.
\<close>

definition Serve :: "sys \<Rightarrow> listener \<Rightarrow> (error + conn) event list \<Rightarrow> error option outcome \<times> sys" where
  "Serve s l script =
     (let (i, s0) = Serve_init s l;
          (r, s') = accept_loop l script s0
      in (case r of
            Blocked \<Rightarrow> (Blocked, s')
          | _ \<Rightarrow> (r, emit [ListenerClose l] (cancel i s'))))"

section \<open>serve: the worker of one connection\<close>

text \<open>
  The call \<^verbatim>\<open>a.Handler.Serve(ctx, conn)\<close> returns when the script says so
  (\<open>Env ()\<close>); until then other goroutines may write to the shared fields.
\<close>

fun handler_wait :: "unit event list \<Rightarrow> sys \<Rightarrow> bool \<times> sys" where
  "handler_wait [] s = (False, s)"
| "handler_wait (Par i # es) s = handler_wait es (interfere i s)"
| "handler_wait (Env u # es) s = (True, s)"

text \<open>
  Lines 172 to 190. \<^verbatim>\<open>context.WithCancel\<close> panics on a nil parent, and the call of a
  method on a nil \<^verbatim>\<open>Handler\<close> panics; the deferred \<^verbatim>\<open>cancel()\<close> runs in any case once
  it has been deferred.
\<close>

definition serve :: "sys \<Rightarrow> conn \<Rightarrow> unit event list \<Rightarrow> unit outcome \<times> sys" where
  "serve s c script =
     (case ctx s of
        None \<Rightarrow> (Panics, s)
      | Some parent \<Rightarrow>
          let ((cx, cancel_i), s1) = context_WithCancel parent s;
              s2 = emit [RegistryInsert c]
                     (s1\<lparr>connDatas := AList.update c (ConnData cx c) (connDatas s1)\<rparr>)
          in (case Handler s2 of
                None \<Rightarrow> (Panics, cancel cancel_i s2)
              | Some h \<Rightarrow>
                  (case handler_wait script (emit [HandlerServe cx c] s2) of
                     (False, s3) \<Rightarrow> (Blocked, s3)
                   | (True, s3) \<Rightarrow>
                       let s4 = emit [ConnClose c] s3;
                           s5 = emit [RegistryDelete c]
                                  (s4\<lparr>connDatas := AList.delete c (connDatas s4)\<rparr>)
                       in (Returns (), cancel cancel_i s5))))"

section \<open>Shutdown and Close\<close>

text \<open>
  \<^verbatim>\<open>for _, c := range a.connDatas { c.conn.Close() }\<close>, under the read lock. Go does
  not fix the order of the iteration; the model takes the order of the list.
\<close>

definition close_conns :: "sys \<Rightarrow> sys" where
  "close_conns s = emit (map (\<lambda>(k, d). ConnClose (conn_of d)) (connDatas s)) s"

text \<open>
  Lines 48 to 66. Each round the script says which case of the \<^verbatim>\<open>select\<close> fires:
  the timer of \<^verbatim>\<open>time.After(5 * time.Millisecond)\<close>, or \<^verbatim>\<open>ctx.Done()\<close> together with
  the value of \<^verbatim>\<open>ctx.Err()\<close>. \<open>err\<close> is the result of \<^verbatim>\<open>a.lis.Close()\<close>.
\<close>

fun Shutdown_loop :: "error option \<Rightarrow> select_case event list \<Rightarrow> sys \<Rightarrow> error option outcome \<times> sys" where
  "Shutdown_loop err [] s = (Blocked, s)"
| "Shutdown_loop err (Par i # es) s = Shutdown_loop err es (interfere i s)"
| "Shutdown_loop err (Env After5ms # es) s =
     (let s1 = emit [TimeAfter 5, RegistryLen (length (connDatas s))] s in
      if length (connDatas s) = 0 then (Returns err, s1)
      else Shutdown_loop err es s1)"
| "Shutdown_loop err (Env (CtxDone e) # es) s = (Returns (Some e), close_conns s)"

text \<open>
  \<^verbatim>\<open>Shutdown\<close>, lines 44 to 67. \<open>close_result\<close> is what \<^verbatim>\<open>a.lis.Close()\<close> returns.
  Calling the nil \<^verbatim>\<open>a.ctxCancel\<close>, or \<^verbatim>\<open>Close\<close> on the nil \<^verbatim>\<open>a.lis\<close>, panics.
\<close>

definition Shutdown :: "sys \<Rightarrow> error option \<Rightarrow> select_case event list \<Rightarrow> error option outcome \<times> sys" where
  "Shutdown s close_result script =
     (case ctxCancel s of
        None \<Rightarrow> (Panics, s)
      | Some i \<Rightarrow>
          let s1 = cancel i s in
          (case lis s1 of
             None \<Rightarrow> (Panics, s1)
           | Some l \<Rightarrow> Shutdown_loop close_result script (emit [ListenerClose l] s1)))"

text \<open>\<^verbatim>\<open>Close\<close>, lines 74 to 85. It has no blocking call, so it takes no script.\<close>

definition Close :: "sys \<Rightarrow> error option \<Rightarrow> error option outcome \<times> sys" where
  "Close s close_result =
     (case ctxCancel s of
        None \<Rightarrow> (Panics, s)
      | Some i \<Rightarrow>
          let s1 = cancel i s in
          (case lis s1 of
             None \<Rightarrow> (Panics, s1)
           | Some l \<Rightarrow> (Returns close_result, close_conns (emit [ListenerClose l] s1))))"

section \<open>ServeTLS and the listen-and-serve entry points\<close>

text \<open>
  \<^verbatim>\<open>ServeTLS\<close>, lines 155 to 170. \<open>config\<close> is a pointer: either the caller's
  \<^verbatim>\<open>a.TLSConfig\<close> or a fresh \<^verbatim>\<open>&tls.Config{}\<close>. \<open>load\<close> is the pair that
  \<^verbatim>\<open>tls.LoadX509KeyPair(certFile, keyFile)\<close> returns; its first component is stored in
  \<^verbatim>\<open>config.Certificates[0]\<close> before the error is looked at.
\<close>

definition ServeTLS :: "sys \<Rightarrow> listener \<Rightarrow> string \<Rightarrow> string \<Rightarrow> certificate \<times> error option \<Rightarrow>
    (error + conn) event list \<Rightarrow> error option outcome \<times> sys" where
  "ServeTLS s l certFile keyFile load script =
     (let (config, s1) =
            (case TLSConfig s of
               Some p \<Rightarrow> (p, s)
             | None \<Rightarrow>
                 (next_config s,
                  s\<lparr>configs := (configs s)(next_config s := \<lparr>Certificates = [], GetCertificate = None\<rparr>),
                    next_config := Suc (next_config s)\<rparr>));
          configHasCert =
            (length (Certificates (configs s1 config)) > 0 \<or> GetCertificate (configs s1 config) \<noteq> None)
      in if \<not> configHasCert \<or> certFile \<noteq> [] \<or> keyFile \<noteq> [] then
           let s2 = emit [LoadX509KeyPair certFile keyFile]
                      (s1\<lparr>configs := (configs s1)(config := (configs s1 config)\<lparr>Certificates := [fst load]\<rparr>)\<rparr>)
           in (case snd load of
                 Some err \<Rightarrow> (Returns (Some err), s2)
               | None \<Rightarrow> Serve s2 (TLSListener l config) script)
         else Serve s1 (TLSListener l config) script)"

text \<open>
  \<^verbatim>\<open>TCPListenAndServe\<close> and \<^verbatim>\<open>TCPListenAndServeTLS\<close>, lines 90 to 113. \<open>listen\<close> is
  what \<^verbatim>\<open>net.Listen("tcp", addr)\<close> returns.
\<close>

definition TCPListenAndServe :: "sys \<Rightarrow> string \<Rightarrow> error + listener \<Rightarrow>
    (error + conn) event list \<Rightarrow> error option outcome \<times> sys" where
  "TCPListenAndServe s address listen script =
     (let s1 = emit [NetListen ''tcp'' address] s in
      (case listen of
         Inl err \<Rightarrow> (Returns (Some err), s1)
       | Inr l \<Rightarrow> Serve s1 l script))"

definition TCPListenAndServeTLS :: "sys \<Rightarrow> string \<Rightarrow> string \<Rightarrow> string \<Rightarrow> error + listener \<Rightarrow>
    certificate \<times> error option \<Rightarrow> (error + conn) event list \<Rightarrow> error option outcome \<times> sys" where
  "TCPListenAndServeTLS s address certFile keyFile listen load script =
     (let s1 = emit [NetListen ''tcp'' address] s in
      (case listen of
         Inl err \<Rightarrow> (Returns (Some err), s1)
       | Inr l \<Rightarrow> ServeTLS s1 l certFile keyFile load script))"

text \<open>
  An Accepter as a caller makes it, \<^verbatim>\<open>&Accepter{Handler: h}\<close>, and the same with a
  TLS configuration at address 0 that already holds a certificate.
\<close>

definition new_Accepter :: sys where
  "new_Accepter =
     \<lparr>Handler = Some 0, TLSConfig = None, lis = None, ctx = None, ctxCancel = None,
      connDatas = [], cancels = [],
      configs = (\<lambda>p. \<lparr>Certificates = [], GetCertificate = None\<rparr>),
      next_config = 0, trace = []\<rparr>"

definition tls_Accepter :: sys where
  "tls_Accepter =
     new_Accepter\<lparr>TLSConfig := Some 0,
       configs := (\<lambda>p. \<lparr>Certificates = [], GetCertificate = None\<rparr>)
                    (0 := \<lparr>Certificates = [''cert-A''], GetCertificate = None\<rparr>),
       next_config := 1\<rparr>"

section \<open>Vocabulary of the statements\<close>

text \<open>The effects the accept loop itself can add to the log.\<close>

definition loop_effect :: "listener \<Rightarrow> effect \<Rightarrow> bool" where
  "loop_effect l ef = (ef = Accept l \<or> ef = Sleep 5 \<or> (\<exists>c. ef = Go c))"


text \<open>
  A registry as the workers fill it: line 177 stores, under the key \<^verbatim>\<open>conn\<close>, a
  \<^verbatim>\<open>connData\<close> whose \<^verbatim>\<open>conn\<close> field is that same connection.
\<close>

definition registry_ok :: "(conn \<times> connData) list \<Rightarrow> bool" where
  "registry_ok al = list_all (\<lambda>(k, d). conn_of d = k) al"

text \<open>
  \<^verbatim>\<open>configHasCert\<close> of line 160, the configuration object line 156 to 159 settle on
  and its address, and the state after lines 162 and 163 have stored what
  \<^verbatim>\<open>tls.LoadX509KeyPair\<close> returned.
\<close>

definition has_certificate :: "tls_Config \<Rightarrow> bool" where
  "has_certificate cfg = (Certificates cfg \<noteq> [] \<or> GetCertificate cfg \<noteq> None)"

definition tls_config_addr :: "sys \<Rightarrow> addr" where
  "tls_config_addr s = (case TLSConfig s of Some p \<Rightarrow> p | None \<Rightarrow> next_config s)"

definition tls_config :: "sys \<Rightarrow> tls_Config" where
  "tls_config s =
     (case TLSConfig s of
        Some p \<Rightarrow> configs s p
      | None \<Rightarrow> \<lparr>Certificates = [], GetCertificate = None\<rparr>)"

definition installed :: "sys \<Rightarrow> string \<Rightarrow> string \<Rightarrow> certificate \<Rightarrow> sys" where
  "installed s certFile keyFile cert =
     (let s1 = (case TLSConfig s of
                  Some p \<Rightarrow> s
                | None \<Rightarrow> s\<lparr>configs := (configs s)(next_config s := \<lparr>Certificates = [], GetCertificate = None\<rparr>),
                             next_config := Suc (next_config s)\<rparr>)
      in emit [LoadX509KeyPair certFile keyFile]
           (s1\<lparr>configs := (configs s1)(tls_config_addr s := (tls_config s)\<lparr>Certificates := [cert]\<rparr>)\<rparr>))"

text \<open>
  Two states for the examples: \<open>serving\<close>, in which \<^verbatim>\<open>Serve\<close> has been called on
  listener 0 and waits in \<^verbatim>\<open>Accept\<close>; \<open>draining\<close>, in which moreover the worker of
  connection 7 has registered it and is inside the handler.
\<close>

definition serving :: sys where
  "serving = snd (Serve new_Accepter (Listener 0) [])"

definition draining :: sys where
  "draining = snd (serve serving 7 [])"

section \<open>Basic facts about the state\<close>

lemma emit_fields [simp]:
  "Handler (emit es s) = Handler s" "TLSConfig (emit es s) = TLSConfig s"
  "lis (emit es s) = lis s" "ctx (emit es s) = ctx s" "ctxCancel (emit es s) = ctxCancel s"
  "connDatas (emit es s) = connDatas s" "cancels (emit es s) = cancels s"
  "configs (emit es s) = configs s" "next_config (emit es s) = next_config s"
  "trace (emit es s) = trace s @ es"
  by (simp_all add: emit_def)

lemma emit_emit: "emit es (emit fs s) = emit (fs @ es) s"
  by (simp add: emit_def)

lemma cancel_fields [simp]:
  "Handler (cancel i s) = Handler s" "TLSConfig (cancel i s) = TLSConfig s"
  "lis (cancel i s) = lis s" "ctx (cancel i s) = ctx s" "ctxCancel (cancel i s) = ctxCancel s"
  "connDatas (cancel i s) = connDatas s" "cancels (cancel i s) = (cancels s)[i := True]"
  "configs (cancel i s) = configs s" "next_config (cancel i s) = next_config s"
  "trace (cancel i s) = trace s @ [CtxCancel i]"
  by (simp_all add: cancel_def)

lemma interfere_fields [simp]:
  "Handler (interfere v s) = Handler s" "TLSConfig (interfere v s) = TLSConfig s"
  "lis (interfere v s) = lis s" "ctx (interfere v s) = ctx s"
  "ctxCancel (interfere v s) = ctxCancel s"
  "configs (interfere v s) = configs s" "next_config (interfere v s) = next_config s"
  "trace (interfere v s) = trace s" "length (cancels (interfere v s)) = length (cancels s)"
  by (cases v; simp split: option.splits)+

lemma new_effects_append [simp]: "trace s' = trace s @ es \<Longrightarrow> new_effects s s' = es"
  by (simp add: new_effects_def)

lemma close_conns_fields [simp]:
  "Handler (close_conns s) = Handler s" "TLSConfig (close_conns s) = TLSConfig s"
  "lis (close_conns s) = lis s" "ctx (close_conns s) = ctx s"
  "ctxCancel (close_conns s) = ctxCancel s" "connDatas (close_conns s) = connDatas s"
  "cancels (close_conns s) = cancels s" "configs (close_conns s) = configs s"
  "trace (close_conns s) = trace s @ map (\<lambda>(k, d). ConnClose (conn_of d)) (connDatas s)"
  by (simp_all add: close_conns_def)

lemma installed_fields [simp]:
  "lis (installed s cf kf cert) = lis s" "ctx (installed s cf kf cert) = ctx s"
  "ctxCancel (installed s cf kf cert) = ctxCancel s" "cancels (installed s cf kf cert) = cancels s"
  "connDatas (installed s cf kf cert) = connDatas s" "TLSConfig (installed s cf kf cert) = TLSConfig s"
  "Handler (installed s cf kf cert) = Handler s"
  "trace (installed s cf kf cert) = trace s @ [LoadX509KeyPair cf kf]"
  "configs (installed s cf kf cert) (tls_config_addr s) = (tls_config s)\<lparr>Certificates := [cert]\<rparr>"
  by (simp_all add: installed_def Let_def split: option.splits)

lemma root_done_emit [simp]: "root_done (emit es s) = root_done s"
  by (simp add: root_done_def split: option.splits)

lemma root_done_interfere:
  "v \<noteq> RootCancelled \<Longrightarrow> root_done (interfere v s) = root_done s"
  by (cases v) (simp_all add: root_done_def split: option.splits)

lemma keys_delete: "fst ` set (AList.delete k al) = fst ` set al - {k}"
  by (force simp: AList.delete_eq)

lemma registry_ok_closes:
  "registry_ok al \<Longrightarrow> map (\<lambda>(k, d). ConnClose (conn_of d)) al = map (\<lambda>(k, d). ConnClose k) al"
  by (induction al) (auto simp: registry_ok_def)

lemma registry_ok_interfere:
  "registry_ok (connDatas s) \<Longrightarrow> registry_ok (connDatas (interfere v s))"
proof (cases v)
  case RootCancelled
  assume "registry_ok (connDatas s)"
  with RootCancelled show ?thesis by (simp split: option.splits)
next
  case (Registered c cx)
  assume ok: "registry_ok (connDatas s)"
  have "registry_ok (AList.update c (ConnData cx c) al)" if "registry_ok al" for al
    using that by (induction al) (auto simp: registry_ok_def)
  with ok Registered show ?thesis by simp
next
  case (Deregistered c)
  assume ok: "registry_ok (connDatas s)"
  have "registry_ok (AList.delete c al)" if "registry_ok al" for al
    using that by (induction al) (auto simp: registry_ok_def)
  with ok Deregistered show ?thesis by simp
qed

section \<open>The accept loop\<close>

lemma accept_loop_frame:
  "accept_loop l es s = (r, s') \<Longrightarrow>
     Handler s' = Handler s \<and> TLSConfig s' = TLSConfig s \<and> lis s' = lis s \<and> ctx s' = ctx s \<and>
     ctxCancel s' = ctxCancel s \<and> configs s' = configs s \<and> next_config s' = next_config s \<and>
     length (cancels s') = length (cancels s)"
proof (induction l es s arbitrary: r s' rule: accept_loop.induct)
  case (1 l s)
  then show ?case by simp
next
  case (2 l i es s)
  from "2.prems" have "accept_loop l es (interfere i s) = (r, s')" by simp
  from "2.IH"[OF this] show ?case by simp
next
  case (3 l c es s)
  from "3.prems" have "accept_loop l es (emit [Accept l, Go c] s) = (r, s')" by simp
  from "3.IH"[OF this] show ?case by simp
next
  case (4 l e es s)
  show ?case
  proof (cases "ctx s")
    case None
    with "4.prems" show ?thesis by (auto simp: Let_def)
  next
    case (Some c)
    show ?thesis
    proof (cases "\<not> Done (cancels s) c \<and> Temporary e")
      case True
      with Some "4.prems" have "accept_loop l es (emit [Sleep 5] (emit [Accept l] s)) = (r, s')"
        by (simp add: Let_def)
      from "4.IH"[OF refl _ _ _ this] Some True show ?thesis by simp
    next
      case False
      with Some "4.prems" show ?thesis by (auto simp: Let_def split: if_splits)
    qed
  qed
qed

lemma accept_loop_trace:
  "accept_loop l es s = (r, s') \<Longrightarrow>
     \<exists>new. trace s' = trace s @ new \<and> (\<forall>ef\<in>set new. loop_effect l ef)"
proof (induction l es s arbitrary: r s' rule: accept_loop.induct)
  case (1 l s)
  then show ?case by simp
next
  case (2 l i es s)
  from "2.prems" have "accept_loop l es (interfere i s) = (r, s')" by simp
  from "2.IH"[OF this] show ?case by simp
next
  case (3 l c es s)
  from "3.prems" have "accept_loop l es (emit [Accept l, Go c] s) = (r, s')" by simp
  from "3.IH"[OF this] obtain new where
    "trace s' = trace s @ [Accept l, Go c] @ new" "\<forall>ef\<in>set new. loop_effect l ef" by auto
  then have "trace s' = trace s @ ([Accept l, Go c] @ new) \<and>
      (\<forall>ef\<in>set ([Accept l, Go c] @ new). loop_effect l ef)"
    by (auto simp: loop_effect_def)
  then show ?case by blast
next
  case (4 l e es s)
  show ?case
  proof (cases "ctx s")
    case None
    with "4.prems" have "trace s' = trace s @ [Accept l]" by (auto simp: Let_def)
    then show ?thesis by (auto simp: loop_effect_def)
  next
    case (Some c)
    show ?thesis
    proof (cases "\<not> Done (cancels s) c \<and> Temporary e")
      case True
      with Some "4.prems" have "accept_loop l es (emit [Sleep 5] (emit [Accept l] s)) = (r, s')"
        by (simp add: Let_def)
      from "4.IH"[OF refl _ _ _ this] Some True obtain new where
        "trace s' = trace s @ [Accept l, Sleep 5] @ new" "\<forall>ef\<in>set new. loop_effect l ef" by auto
      then have "trace s' = trace s @ ([Accept l, Sleep 5] @ new) \<and>
          (\<forall>ef\<in>set ([Accept l, Sleep 5] @ new). loop_effect l ef)"
        by (auto simp: loop_effect_def)
      then show ?thesis by blast
    next
      case False
      with Some "4.prems" have "trace s' = trace s @ [Accept l]" by (auto simp: Let_def split: if_splits)
      then show ?thesis by (auto simp: loop_effect_def)
    qed
  qed
qed

lemma accept_loop_append:
  "accept_loop l pre s = (Blocked, s1) \<Longrightarrow> accept_loop l (pre @ post) s = accept_loop l post s1"
proof (induction l pre s rule: accept_loop.induct)
  case (1 l s)
  then show ?case by simp
next
  case (2 l i es s)
  then show ?case by simp
next
  case (3 l c es s)
  then show ?case by simp
next
  case (4 l e es s)
  then show ?case
    by (cases "ctx s") (auto simp: Let_def split: if_splits)
qed

lemma accept_loop_returned_error:
  "accept_loop l es s = (Returns (Some e), s') \<Longrightarrow> \<not> Temporary e \<and> Env (Inl e) \<in> set es"
proof (induction l es s rule: accept_loop.induct)
  case (1 l s)
  then show ?case by simp
next
  case (2 l i es s)
  then show ?case by simp
next
  case (3 l c es s)
  then show ?case by simp
next
  case (4 l e' es s)
  then show ?case
    by (cases "ctx s") (auto simp: Let_def split: if_splits)
qed

lemma accept_loop_no_worker:
  "accept_loop l es s = (r, s') \<Longrightarrow> \<forall>c. Env (Inr c) \<notin> set es \<Longrightarrow>
     \<exists>new. trace s' = trace s @ new \<and> (\<forall>c. Go c \<notin> set new)"
proof (induction l es s arbitrary: r s' rule: accept_loop.induct)
  case (1 l s)
  then show ?case by simp
next
  case (2 l i es s)
  from "2.prems" have "accept_loop l es (interfere i s) = (r, s')" "\<forall>c. Env (Inr c) \<notin> set es"
    by simp_all
  from "2.IH"[OF this] show ?case by simp
next
  case (3 l c es s)
  from "3.prems"(2) have False by auto
  then show ?case ..
next
  case (4 l e es s)
  from "4.prems" have nos: "\<forall>c. Env (Inr c) \<notin> set es" by simp
  show ?case
  proof (cases "ctx s")
    case None
    with "4.prems" have "trace s' = trace s @ [Accept l]" by (auto simp: Let_def)
    then show ?thesis by simp
  next
    case (Some c)
    show ?thesis
    proof (cases "\<not> Done (cancels s) c \<and> Temporary e")
      case True
      with Some "4.prems" have "accept_loop l es (emit [Sleep 5] (emit [Accept l] s)) = (r, s')"
        by (simp add: Let_def)
      from "4.IH"[OF refl _ _ _ this nos] Some True obtain new where
        "trace s' = trace s @ [Accept l, Sleep 5] @ new" "\<forall>c. Go c \<notin> set new" by auto
      then have "trace s' = trace s @ ([Accept l, Sleep 5] @ new) \<and>
          (\<forall>c. Go c \<notin> set ([Accept l, Sleep 5] @ new))"
        by simp
      then show ?thesis by blast
    next
      case False
      with Some "4.prems" have "trace s' = trace s @ [Accept l]"
        by (auto simp: Let_def split: if_splits)
      then show ?thesis by simp
    qed
  qed
qed

lemma accept_loop_live:
  "accept_loop l es s = (r, s') \<Longrightarrow> Par RootCancelled \<notin> set es \<Longrightarrow> \<not> root_done s \<Longrightarrow>
     r \<noteq> Returns None"
proof (induction l es s arbitrary: r s' rule: accept_loop.induct)
  case (1 l s)
  then show ?case by auto
next
  case (2 l i es s)
  from "2.prems" have "i \<noteq> RootCancelled" by auto
  then have "\<not> root_done (interfere i s)"
    using "2.prems"(3) by (simp add: root_done_interfere)
  with "2.IH" "2.prems" show ?case by simp
next
  case (3 l c es s)
  then show ?case by simp
next
  case (4 l e es s)
  show ?case
  proof (cases "ctx s")
    case None
    with "4.prems" show ?thesis by (auto simp: Let_def)
  next
    case (Some c)
    with "4.prems"(3) have live: "\<not> Done (cancels s) c" by (simp add: root_done_def)
    show ?thesis
    proof (cases "Temporary e")
      case True
      with Some live "4.prems" have
        "accept_loop l es (emit [Sleep 5] (emit [Accept l] s)) = (r, s')"
        by (simp add: Let_def)
      moreover have "\<not> root_done (emit [Sleep 5] (emit [Accept l] s))"
        using "4.prems"(3) by simp
      ultimately show ?thesis
        using "4.IH"[OF refl _ _ True] Some live "4.prems"(2) by simp
    next
      case False
      with Some live "4.prems" show ?thesis by (auto simp: Let_def)
    qed
  qed
qed

lemma accept_loop_retries:
  "ctx s = Some c \<Longrightarrow> \<not> root_done s \<Longrightarrow> Par RootCancelled \<notin> set es \<Longrightarrow>
   \<forall>x. Env (Inr x) \<notin> set es \<Longrightarrow> \<forall>e. Env (Inl e) \<in> set es \<longrightarrow> Temporary e \<Longrightarrow>
     \<exists>s1. accept_loop l es s = (Blocked, s1) \<and> \<not> root_done s1"
proof (induction l es s rule: accept_loop.induct)
  case (1 l s)
  then show ?case by simp
next
  case (2 l i es s)
  from "2.prems" have "i \<noteq> RootCancelled" by auto
  then have "\<not> root_done (interfere i s)"
    using "2.prems"(2) by (simp add: root_done_interfere)
  with "2.IH" "2.prems" show ?case by simp
next
  case (3 l x es s)
  from "3.prems"(4) have False by auto
  then show ?case ..
next
  case (4 l e es s)
  from "4.prems" have t: "Temporary e" by simp
  from "4.prems" have live: "\<not> Done (cancels s) c" by (simp add: root_done_def)
  have cx: "ctx (emit [Accept l] s) = Some c" using "4.prems"(1) by simp
  have lv: "\<not> Done (cancels (emit [Accept l] s)) c" using live by simp
  have "\<exists>s1. accept_loop l es (emit [Sleep 5] (emit [Accept l] s)) = (Blocked, s1) \<and> \<not> root_done s1"
    using "4.IH"[OF refl cx lv t] "4.prems" by simp
  then show ?case
    using "4.prems"(1) live t by (simp add: Let_def)
qed

lemma Serve_init_fields [simp]:
  "Handler (snd (Serve_init s l)) = Handler s" "TLSConfig (snd (Serve_init s l)) = TLSConfig s"
  "lis (snd (Serve_init s l)) = Some l"
  "ctx (snd (Serve_init s l)) = Some (CancelCtx (length (cancels s)) Background)"
  "ctxCancel (snd (Serve_init s l)) = Some (length (cancels s))"
  "fst (Serve_init s l) = length (cancels s)"
  "connDatas (snd (Serve_init s l)) = []" "cancels (snd (Serve_init s l)) = cancels s @ [False]"
  "configs (snd (Serve_init s l)) = configs s" "next_config (snd (Serve_init s l)) = next_config s"
  "trace (snd (Serve_init s l)) = trace s"
  by (simp_all add: Serve_init_def context_WithCancel_def)

lemma Serve_init_live [simp]: "\<not> root_done (snd (Serve_init s l))"
  by (simp add: root_done_def nth_append)

lemma Serve_unfold:
  "Serve s l script =
     (case accept_loop l script (snd (Serve_init s l)) of
        (Blocked, s') \<Rightarrow> (Blocked, s')
      | (r, s') \<Rightarrow> (r, emit [ListenerClose l] (cancel (length (cancels s)) s')))"
  by (simp add: Serve_def split_beta Let_def split: outcome.splits)

lemma Serve_result:
  "accept_loop l script (snd (Serve_init s l)) = (r, s') \<Longrightarrow> fst (Serve s l script) = r"
  by (simp add: Serve_unfold split: outcome.splits)

lemma Serve_returned:
  "fst (Serve s l script) = Returns x \<Longrightarrow>
     \<exists>s'. accept_loop l script (snd (Serve_init s l)) = (Returns x, s')"
  by (cases "accept_loop l script (snd (Serve_init s l))")
     (auto simp: Serve_unfold split: outcome.splits)

lemma Serve_trace:
  "\<exists>s' r tl. accept_loop l script (snd (Serve_init s l)) = (r, s') \<and>
     trace (snd (Serve s l script)) = trace s' @ tl \<and> (\<forall>c. Go c \<notin> set tl)"
proof (cases "accept_loop l script (snd (Serve_init s l))")
  case (Pair r s')
  then show ?thesis
    by (cases r) (auto simp: Serve_unfold)
qed

lemma Serve_frame:
  "Handler (snd (Serve s l script)) = Handler s \<and> TLSConfig (snd (Serve s l script)) = TLSConfig s \<and>
   configs (snd (Serve s l script)) = configs s \<and>
   next_config (snd (Serve s l script)) = next_config s \<and>
   lis (snd (Serve s l script)) = Some l"
proof (cases "accept_loop l script (snd (Serve_init s l))")
  case (Pair r s')
  from accept_loop_frame [OF Pair] Pair show ?thesis
    by (cases r) (simp_all add: Serve_unfold)
qed

lemma Serve_effects:
  "\<exists>new. trace (snd (Serve s l script)) = trace s @ new \<and>
     (\<forall>ef\<in>set new. loop_effect l ef \<or> ef = CtxCancel (length (cancels s)) \<or> ef = ListenerClose l)"
proof (cases "accept_loop l script (snd (Serve_init s l))")
  case (Pair r s')
  from accept_loop_trace [OF Pair] obtain new where
    new: "trace s' = trace s @ new" "\<forall>ef\<in>set new. loop_effect l ef" by auto
  show ?thesis
  proof (cases "r = Blocked")
    case True
    with Pair new show ?thesis by (auto simp: Serve_unfold)
  next
    case False
    with Pair new have "trace (snd (Serve s l script)) =
        trace s @ (new @ [CtxCancel (length (cancels s)), ListenerClose l])"
      by (cases r) (simp_all add: Serve_unfold)
    moreover have "\<forall>ef\<in>set (new @ [CtxCancel (length (cancels s)), ListenerClose l]).
        loop_effect l ef \<or> ef = CtxCancel (length (cancels s)) \<or> ef = ListenerClose l"
      using new(2) by auto
    ultimately show ?thesis by blast
  qed
qed

lemma Serve_never_loads:
  "LoadX509KeyPair a b \<notin> set (new_effects s (snd (Serve s l script)))"
proof -
  from Serve_effects [of s l script] obtain new where
    new: "trace (snd (Serve s l script)) = trace s @ new"
      "\<forall>ef\<in>set new. loop_effect l ef \<or> ef = CtxCancel (length (cancels s)) \<or> ef = ListenerClose l"
    by blast
  then have "LoadX509KeyPair a b \<notin> set new"
    by (auto simp: loop_effect_def)
  with new(1) show ?thesis
    using new_effects_append by metis
qed

subsection \<open>What Serve returns when Accept fails\<close>

text \<open>
  Claim C1. Let the accept loop be waiting in \<^verbatim>\<open>Accept\<close> in state \<open>s1\<close>, after the
  part \<open>pre\<close> of the script, and let \<^verbatim>\<open>Accept\<close> fail with \<open>e\<close>. If the root scope has
  been cancelled, \<^verbatim>\<open>Serve\<close> returns nil. If the root scope is live and \<open>e\<close> is not
  temporary, \<^verbatim>\<open>Serve\<close> returns \<open>e\<close>.
\<close>

theorem Serve_accept_failure:
  assumes "accept_loop l pre (snd (Serve_init s l)) = (Blocked, s1)"
  shows "(root_done s1 \<longrightarrow> fst (Serve s l (pre @ Env (Inl e) # post)) = Returns None) \<and>
         (\<not> root_done s1 \<and> \<not> Temporary e \<longrightarrow>
            fst (Serve s l (pre @ Env (Inl e) # post)) = Returns (Some e))"
proof -
  have c: "ctx s1 = Some (CancelCtx (length (cancels s)) Background)"
    using accept_loop_frame [OF assms] by simp
  have step: "accept_loop l (pre @ Env (Inl e) # post) (snd (Serve_init s l)) =
      accept_loop l (Env (Inl e) # post) s1"
    by (rule accept_loop_append [OF assms])
  show ?thesis
  proof (intro conjI impI)
    assume "root_done s1"
    then have "accept_loop l (Env (Inl e) # post) s1 = (Returns None, emit [Accept l] s1)"
      using c by (simp add: root_done_def Let_def)
    with step show "fst (Serve s l (pre @ Env (Inl e) # post)) = Returns None"
      by (simp add: Serve_result)
  next
    assume "\<not> root_done s1 \<and> \<not> Temporary e"
    then have "accept_loop l (Env (Inl e) # post) s1 = (Returns (Some e), emit [Accept l] s1)"
      using c by (simp add: root_done_def Let_def)
    with step show "fst (Serve s l (pre @ Env (Inl e) # post)) = Returns (Some e)"
      by (simp add: Serve_result)
  qed
qed

theorem Serve_accept_failure_witness:
  "fst (Serve new_Accepter (Listener 0)
          ([Env (Inr 1), Par RootCancelled] @ Env (Inl (Error ''use of closed network connection'')) # []))
     = Returns None \<and>
   fst (Serve new_Accepter (Listener 0)
          ([Env (Inr 1)] @ Env (Inl (Error ''too many open files'')) # []))
     = Returns (Some (Error ''too many open files''))"
proof -
  let ?s0 = "snd (Serve_init new_Accepter (Listener 0))"
  let ?a = "snd (accept_loop (Listener 0) [Env (Inr 1), Par RootCancelled] ?s0)"
  let ?b = "snd (accept_loop (Listener 0) [Env (Inr 1)] ?s0)"
  have a: "accept_loop (Listener 0) [Env (Inr 1), Par RootCancelled] ?s0 = (Blocked, ?a)"
    by simp
  have b: "accept_loop (Listener 0) [Env (Inr 1)] ?s0 = (Blocked, ?b)"
    by simp
  have da: "root_done ?a"
    by (simp add: root_done_def new_Accepter_def)
  have db: "\<not> root_done ?b \<and> \<not> Temporary (Error ''too many open files'')"
    by (simp add: root_done_def new_Accepter_def)
  show ?thesis
    using Serve_accept_failure [OF a, of "Error ''use of closed network connection''" "[]"] da
      Serve_accept_failure [OF b, of "Error ''too many open files''" "[]"] db
    by blast
qed

subsection \<open>Temporary accept errors\<close>

text \<open>
  Claim C6. Let the accept loop be waiting in \<^verbatim>\<open>Accept\<close> in state \<open>s1\<close> with the root
  scope live, and let \<^verbatim>\<open>Accept\<close> fail with \<open>e\<close>. If \<open>e\<close> is temporary, the loop sleeps
  5 ms and is back in \<^verbatim>\<open>Accept\<close>, going on with the rest of the script. If \<open>e\<close> is not
  temporary, \<^verbatim>\<open>Serve\<close> ends and returns \<open>e\<close>. And whatever the script, an error that
  \<^verbatim>\<open>Serve\<close> returns is never a temporary one.
\<close>

theorem temporary_accept_error_is_retried:
  assumes "accept_loop l pre (snd (Serve_init s l)) = (Blocked, s1)"
    and "\<not> root_done s1"
  shows "(Temporary e \<longrightarrow>
            Serve s l (pre @ [Env (Inl e)]) = (Blocked, emit [Accept l, Sleep 5] s1) \<and>
            accept_loop l (pre @ Env (Inl e) # post) (snd (Serve_init s l)) =
              accept_loop l post (emit [Accept l, Sleep 5] s1)) \<and>
         (\<not> Temporary e \<longrightarrow>
            Serve s l (pre @ Env (Inl e) # post) =
              (Returns (Some e),
               emit [ListenerClose l] (cancel (length (cancels s)) (emit [Accept l] s1)))) \<and>
         (\<forall>script e'. fst (Serve s l script) = Returns (Some e') \<longrightarrow> \<not> Temporary e')"
proof -
  have c: "ctx s1 = Some (CancelCtx (length (cancels s)) Background)"
    using accept_loop_frame [OF assms(1)] by simp
  have live: "\<not> Done (cancels s1) (CancelCtx (length (cancels s)) Background)"
    using assms(2) c by (simp add: root_done_def)
  have step: "accept_loop l (pre @ Env (Inl e) # es) (snd (Serve_init s l)) =
      accept_loop l (Env (Inl e) # es) s1" for es
    by (rule accept_loop_append [OF assms(1)])
  have retry: "accept_loop l (Env (Inl e) # es) s1 = accept_loop l es (emit [Accept l, Sleep 5] s1)"
    if "Temporary e" for es
    using that c live by (auto simp: Let_def emit_emit)
  have stop: "accept_loop l (Env (Inl e) # es) s1 = (Returns (Some e), emit [Accept l] s1)"
    if "\<not> Temporary e" for es
    using that c live by (auto simp: Let_def)
  have never: "\<not> Temporary e'" if "fst (Serve s l script) = Returns (Some e')" for script e'
    using Serve_returned [OF that] accept_loop_returned_error by blast
  show ?thesis
  proof (intro conjI impI allI)
    assume t: "Temporary e"
    show "Serve s l (pre @ [Env (Inl e)]) = (Blocked, emit [Accept l, Sleep 5] s1)"
      using step [of "[]"] retry [OF t, of "[]"] by (simp add: Serve_unfold)
    show "accept_loop l (pre @ Env (Inl e) # post) (snd (Serve_init s l)) =
        accept_loop l post (emit [Accept l, Sleep 5] s1)"
      using step [of post] retry [OF t, of post] by simp
  next
    assume "\<not> Temporary e"
    from stop [OF this, of post] step [of post]
    show "Serve s l (pre @ Env (Inl e) # post) =
        (Returns (Some e), emit [ListenerClose l] (cancel (length (cancels s)) (emit [Accept l] s1)))"
      by (simp add: Serve_unfold)
  next
    fix script e'
    assume "fst (Serve s l script) = Returns (Some e')"
    then show "\<not> Temporary e'" by (rule never)
  qed
qed

theorem temporary_accept_error_is_retried_witness:
  "fst (Serve new_Accepter (Listener 0) ([Env (Inr 1)] @ [Env (Inl (NetError ''accept: too many open files'' True))]))
     = Blocked \<and>
   new_effects new_Accepter
     (snd (Serve new_Accepter (Listener 0) ([Env (Inr 1)] @ [Env (Inl (NetError ''accept: too many open files'' True))])))
     = [Accept (Listener 0), Go 1, Accept (Listener 0), Sleep 5] \<and>
   fst (Serve new_Accepter (Listener 0) ([Env (Inr 1)] @ Env (Inl (Error ''listener failed'')) # []))
     = Returns (Some (Error ''listener failed''))"
proof -
  let ?s0 = "snd (Serve_init new_Accepter (Listener 0))"
  let ?b = "snd (accept_loop (Listener 0) [Env (Inr 1)] ?s0)"
  have b: "accept_loop (Listener 0) [Env (Inr 1)] ?s0 = (Blocked, ?b)"
    by simp
  have live: "\<not> root_done ?b"
    by (simp add: root_done_def new_Accepter_def)
  have t: "Temporary (NetError ''accept: too many open files'' True)"
    by simp
  have n: "\<not> Temporary (Error ''listener failed'')"
    by simp
  have tr: "trace (emit [Accept (Listener 0), Sleep 5] ?b) =
      trace new_Accepter @ [Accept (Listener 0), Go 1, Accept (Listener 0), Sleep 5]"
    by simp
  note retried =
    temporary_accept_error_is_retried [OF b live,
      of "NetError ''accept: too many open files'' True" "[]"]
  note ended =
    temporary_accept_error_is_retried [OF b live, of "Error ''listener failed''" "[]"]
  show ?thesis
    using retried ended t n tr by simp
qed

subsection \<open>Serve called again after Shutdown or Close\<close>

text \<open>
  Claim C8, as amended. After \<^verbatim>\<open>Shutdown\<close> or \<^verbatim>\<open>Close\<close> has returned, a further call
  of \<^verbatim>\<open>Serve\<close> on the same listener, on which every \<^verbatim>\<open>Accept\<close> now fails, starts no
  worker, so the handler is not invoked again. But \<^verbatim>\<open>Serve\<close> begins with a fresh, live
  root scope (line 122): unless that scope is cancelled in turn, \<^verbatim>\<open>Serve\<close> does not
  return nil, and it returns the first accept error that is not temporary.
\<close>

theorem Serve_again_on_closed_listener:
  assumes "Shutdown s r sh = (Returns x, s1) \<or> Close s r = (Returns x, s1)"
    and "lis s = Some l"
    and "\<forall>c. Env (Inr c) \<notin> set script"
  shows "(\<forall>c. Go c \<notin> set (new_effects s1 (snd (Serve s1 l script)))) \<and>
         (Par RootCancelled \<notin> set script \<longrightarrow> fst (Serve s1 l script) \<noteq> Returns None) \<and>
         (\<forall>pre e post.
            script = pre @ Env (Inl e) # post \<and> Par RootCancelled \<notin> set pre \<and>
            (\<forall>e'. Env (Inl e') \<in> set pre \<longrightarrow> Temporary e') \<and> \<not> Temporary e \<longrightarrow>
            fst (Serve s1 l script) = Returns (Some e))"
proof (intro conjI allI impI)
  fix c
  obtain s' r' tl where run: "accept_loop l script (snd (Serve_init s1 l)) = (r', s')"
    and tr: "trace (snd (Serve s1 l script)) = trace s' @ tl" and tl: "\<forall>c. Go c \<notin> set tl"
    using Serve_trace by blast
  from accept_loop_no_worker [OF run assms(3)] obtain new where
    "trace s' = trace s1 @ new" "\<forall>c. Go c \<notin> set new" by auto
  with tr tl have "trace (snd (Serve s1 l script)) = trace s1 @ (new @ tl)"
    "Go c \<notin> set (new @ tl)" by simp_all
  then show "Go c \<notin> set (new_effects s1 (snd (Serve s1 l script)))"
    using new_effects_append by metis
next
  assume nc: "Par RootCancelled \<notin> set script"
  obtain r' s' where run: "accept_loop l script (snd (Serve_init s1 l)) = (r', s')"
    by (cases "accept_loop l script (snd (Serve_init s1 l))")
  from accept_loop_live [OF run nc] have "r' \<noteq> Returns None" by simp
  with Serve_result [OF run] show "fst (Serve s1 l script) \<noteq> Returns None" by simp
next
  fix pre e post
  assume h: "script = pre @ Env (Inl e) # post \<and> Par RootCancelled \<notin> set pre \<and>
      (\<forall>e'. Env (Inl e') \<in> set pre \<longrightarrow> Temporary e') \<and> \<not> Temporary e"
  with assms(3) have nos: "\<forall>x. Env (Inr x) \<notin> set pre" by simp
  have "\<exists>s2. accept_loop l pre (snd (Serve_init s1 l)) = (Blocked, s2) \<and> \<not> root_done s2"
    using h nos by (intro accept_loop_retries [where c = "CancelCtx (length (cancels s1)) Background"]) simp_all
  then obtain s2 where b: "accept_loop l pre (snd (Serve_init s1 l)) = (Blocked, s2)"
    and live: "\<not> root_done s2" by blast
  have c: "ctx s2 = Some (CancelCtx (length (cancels s1)) Background)"
    using accept_loop_frame [OF b] by simp
  with live have "accept_loop l (Env (Inl e) # post) s2 = (Returns (Some e), emit [Accept l] s2)"
    using h by (auto simp: root_done_def Let_def)
  with accept_loop_append [OF b, of "Env (Inl e) # post"] h
  show "fst (Serve s1 l script) = Returns (Some e)"
    by (simp add: Serve_result)
qed

theorem Serve_again_on_closed_listener_witness:
  "(Shutdown serving None [Env After5ms] = (Returns None, snd (Shutdown serving None [Env After5ms]))
      \<or> Close serving None = (Returns None, snd (Shutdown serving None [Env After5ms]))) \<and>
   lis serving = Some (Listener 0) \<and>
   (\<forall>c. Go c \<notin> set (new_effects (snd (Shutdown serving None [Env After5ms]))
      (snd (Serve (snd (Shutdown serving None [Env After5ms])) (Listener 0)
         [Env (Inl (NetError ''use of closed network connection'' False))])))) \<and>
   fst (Serve (snd (Shutdown serving None [Env After5ms])) (Listener 0)
          [Env (Inl (NetError ''use of closed network connection'' False))])
     = Returns (Some (NetError ''use of closed network connection'' False))"
proof -
  let ?e = "NetError ''use of closed network connection'' False"
  let ?s1 = "snd (Shutdown serving None [Env After5ms])"
  have a: "Shutdown serving None [Env After5ms] = (Returns None, ?s1) \<or>
      Close serving None = (Returns None, ?s1)"
    by (simp add: serving_def Shutdown_def Serve_unfold new_Accepter_def Let_def)
  have b: "lis serving = Some (Listener 0)"
    by (simp add: serving_def Serve_unfold)
  have c: "\<forall>c. Env (Inr c) \<notin> set [Env (Inl ?e)]"
    by simp
  have d: "[Env (Inl ?e)] = [] @ Env (Inl ?e) # [] \<and> Par RootCancelled \<notin> set [] \<and>
      (\<forall>e'. Env (Inl e') \<in> set [] \<longrightarrow> Temporary e') \<and> \<not> Temporary ?e"
    by simp
  from Serve_again_on_closed_listener [OF a b c] d a b show ?thesis
    by blast
qed

text \<open>
  Claim C8 as stated fails: \<^verbatim>\<open>Serve\<close> is waiting in \<^verbatim>\<open>Accept\<close>, \<^verbatim>\<open>Shutdown\<close> runs and
  returns nil, and \<^verbatim>\<open>Serve\<close> is called again on the same listener. \<^verbatim>\<open>Accept\<close> fails
  with the error of a closed listener, which is a \<^verbatim>\<open>net.Error\<close> and not temporary, and
  \<^verbatim>\<open>Serve\<close> returns that error, not nil.
\<close>

theorem Serve_again_counterexample:
  "fst (Shutdown serving None [Env After5ms]) = Returns None \<and>
   lis (snd (Shutdown serving None [Env After5ms])) = Some (Listener 0) \<and>
   fst (Serve (snd (Shutdown serving None [Env After5ms])) (Listener 0)
          [Env (Inl (NetError ''use of closed network connection'' False))])
     = Returns (Some (NetError ''use of closed network connection'' False))"
  by (simp add: serving_def Shutdown_def Serve_unfold new_Accepter_def Let_def)

section \<open>The worker and the registry entry of its connection\<close>

lemma handler_wait_frame:
  "handler_wait script s = (b, s') \<Longrightarrow>
     trace s' = trace s \<and> length (cancels s') = length (cancels s) \<and> ctx s' = ctx s \<and>
     Handler s' = Handler s"
  by (induction script s rule: handler_wait.induct) auto

lemma handler_wait_returns:
  "Env () \<in> set script \<Longrightarrow> fst (handler_wait script s) = True"
  by (induction script s rule: handler_wait.induct) auto

lemma handler_wait_blocked:
  "Env () \<notin> set script \<Longrightarrow> fst (handler_wait script s) = False"
  by (induction script s rule: handler_wait.induct) auto

lemma interfere_keeps_key:
  "v \<noteq> Deregistered c \<Longrightarrow> c \<in> fst ` set (connDatas s) \<Longrightarrow>
     c \<in> fst ` set (connDatas (interfere v s))"
  by (cases v) (auto simp: dom_update keys_delete split: option.splits)

lemma handler_wait_keeps_key:
  "Par (Deregistered c) \<notin> set script \<Longrightarrow> c \<in> fst ` set (connDatas s) \<Longrightarrow>
     c \<in> fst ` set (connDatas (snd (handler_wait script s)))"
proof (induction script s rule: handler_wait.induct)
  case (1 s)
  then show ?case by simp
next
  case (2 i es s)
  from "2.prems" have "i \<noteq> Deregistered c" by auto
  from interfere_keeps_key [OF this "2.prems"(2)] "2.IH" "2.prems"(1) show ?case by simp
next
  case (3 u es s)
  then show ?case by simp
qed

lemma serve_returns:
  assumes "ctx s = Some parent" and "Handler s = Some h" and "Env () \<in> set script"
  shows "fst (serve s c script) = Returns () \<and>
         trace (snd (serve s c script)) = trace s @
           [RegistryInsert c, HandlerServe (CancelCtx (length (cancels s)) parent) c,
            ConnClose c, RegistryDelete c, CtxCancel (length (cancels s))] \<and>
         c \<notin> fst ` set (connDatas (snd (serve s c script)))"
proof -
  let ?cx = "CancelCtx (length (cancels s)) parent"
  let ?s2 = "emit [RegistryInsert c]
      (s\<lparr>cancels := cancels s @ [False],
         connDatas := AList.update c (ConnData ?cx c) (connDatas s)\<rparr>)"
  obtain b s3 where w: "handler_wait script (emit [HandlerServe ?cx c] ?s2) = (b, s3)"
    by (cases "handler_wait script (emit [HandlerServe ?cx c] ?s2)")
  with handler_wait_returns [OF assms(3), of "emit [HandlerServe ?cx c] ?s2"] have b: "b" by simp
  from handler_wait_frame [OF w] have tr: "trace s3 = trace s @ [RegistryInsert c, HandlerServe ?cx c]"
    by simp
  have "serve s c script =
      (Returns (), cancel (length (cancels s))
         (emit [RegistryDelete c]
            ((emit [ConnClose c] s3)\<lparr>connDatas := AList.delete c (connDatas (emit [ConnClose c] s3))\<rparr>)))"
    using assms(1,2) w b by (simp add: serve_def context_WithCancel_def Let_def)
  then show ?thesis
    using tr by (simp add: keys_delete)
qed

lemma serve_blocked:
  assumes "ctx s = Some parent" and "Handler s = Some h" and "Env () \<notin> set script"
    and "Par (Deregistered c) \<notin> set script"
  shows "fst (serve s c script) = Blocked \<and>
         trace (snd (serve s c script)) = trace s @
           [RegistryInsert c, HandlerServe (CancelCtx (length (cancels s)) parent) c] \<and>
         c \<in> fst ` set (connDatas (snd (serve s c script)))"
proof -
  let ?cx = "CancelCtx (length (cancels s)) parent"
  let ?s2 = "emit [RegistryInsert c]
      (s\<lparr>cancels := cancels s @ [False],
         connDatas := AList.update c (ConnData ?cx c) (connDatas s)\<rparr>)"
  let ?w = "handler_wait script (emit [HandlerServe ?cx c] ?s2)"
  have b: "fst ?w = False"
    by (rule handler_wait_blocked [OF assms(3)])
  have "c \<in> fst ` set (connDatas (emit [HandlerServe ?cx c] ?s2))"
    by (simp add: dom_update)
  from handler_wait_keeps_key [OF assms(4) this]
  have k: "c \<in> fst ` set (connDatas (snd ?w))" .
  have tr: "trace (snd ?w) = trace s @ [RegistryInsert c, HandlerServe ?cx c]"
    using handler_wait_frame [of script "emit [HandlerServe ?cx c] ?s2" "fst ?w" "snd ?w"] by simp
  have "serve s c script = (Blocked, snd ?w)"
    using assms(1,2) b by (cases ?w) (simp add: serve_def context_WithCancel_def Let_def)
  then show ?thesis
    using tr k by simp
qed

text \<open>
  Claim C4, as amended. The worker of an accepted connection \<open>c\<close> inserts the entry of
  \<open>c\<close> before it invokes the handler; while the handler has not returned the entry is in
  the registry (no other goroutine deletes the entry of \<open>c\<close>); after the handler has
  returned the worker first closes the connection and then removes the entry, and the
  registry has no entry of \<open>c\<close> when the worker is done.
\<close>

theorem worker_registry_lifecycle:
  assumes "ctx s = Some parent" and "Handler s = Some h"
  shows "(Env () \<notin> set script \<and> Par (Deregistered c) \<notin> set script \<longrightarrow>
            fst (serve s c script) = Blocked \<and>
            new_effects s (snd (serve s c script)) =
              [RegistryInsert c, HandlerServe (CancelCtx (length (cancels s)) parent) c] \<and>
            c \<in> fst ` set (connDatas (snd (serve s c script)))) \<and>
         (Env () \<in> set script \<longrightarrow>
            fst (serve s c script) = Returns () \<and>
            new_effects s (snd (serve s c script)) =
              [RegistryInsert c, HandlerServe (CancelCtx (length (cancels s)) parent) c,
               ConnClose c, RegistryDelete c, CtxCancel (length (cancels s))] \<and>
            precedes (ConnClose c) (RegistryDelete c) (new_effects s (snd (serve s c script))) \<and>
            c \<notin> fst ` set (connDatas (snd (serve s c script))))"
proof (intro conjI impI)
  assume h: "Env () \<notin> set script \<and> Par (Deregistered c) \<notin> set script"
  from serve_blocked [OF assms, of script c] h
  show "fst (serve s c script) = Blocked"
    and "new_effects s (snd (serve s c script)) =
      [RegistryInsert c, HandlerServe (CancelCtx (length (cancels s)) parent) c]"
    and "c \<in> fst ` set (connDatas (snd (serve s c script)))"
    by simp_all
next
  assume h: "Env () \<in> set script"
  from serve_returns [OF assms h, of c]
  show "fst (serve s c script) = Returns ()"
    and e: "new_effects s (snd (serve s c script)) =
      [RegistryInsert c, HandlerServe (CancelCtx (length (cancels s)) parent) c,
       ConnClose c, RegistryDelete c, CtxCancel (length (cancels s))]"
    and "c \<notin> fst ` set (connDatas (snd (serve s c script)))"
    by simp_all
  show "precedes (ConnClose c) (RegistryDelete c) (new_effects s (snd (serve s c script)))"
    by (simp add: e)
qed

theorem worker_registry_lifecycle_witness:
  "ctx serving = Some (CancelCtx 0 Background) \<and> Handler serving = Some 0 \<and>
   fst (serve serving 7 [Par (Registered 8 Background), Env ()]) = Returns () \<and>
   new_effects serving (snd (serve serving 7 [Par (Registered 8 Background), Env ()])) =
     [RegistryInsert 7, HandlerServe (CancelCtx (length (cancels serving)) (CancelCtx 0 Background)) 7,
      ConnClose 7, RegistryDelete 7, CtxCancel (length (cancels serving))] \<and>
   fst (serve serving 7 [Par (Registered 8 Background)]) = Blocked \<and>
   7 \<in> fst ` set (connDatas (snd (serve serving 7 [Par (Registered 8 Background)])))"
proof -
  have a: "ctx serving = Some (CancelCtx 0 Background)"
    by (simp add: serving_def Serve_unfold new_Accepter_def)
  have b: "Handler serving = Some 0"
    by (simp add: serving_def Serve_unfold new_Accepter_def)
  have c: "Env () \<in> set [Par (Registered 8 Background), Env ()]"
    by simp
  have d: "Env () \<notin> set [Par (Registered 8 Background)] \<and>
      Par (Deregistered 7) \<notin> set [Par (Registered 8 Background)]"
    by simp
  from worker_registry_lifecycle [OF a b, of "[Par (Registered 8 Background), Env ()]" 7] c
    worker_registry_lifecycle [OF a b, of "[Par (Registered 8 Background)]" 7] d a b
  show ?thesis by blast
qed

text \<open>
  Claim C4 as stated fails: the worker closes the connection (line 185) before it
  removes the entry (line 188), so the removal does not come before the close, and the
  entry is still there after the handler has returned.
\<close>

theorem worker_close_before_deregister_counterexample:
  "fst (serve serving 7 [Env ()]) = Returns () \<and>
   new_effects serving (snd (serve serving 7 [Env ()])) =
     [RegistryInsert 7, HandlerServe (CancelCtx 1 (CancelCtx 0 Background)) 7,
      ConnClose 7, RegistryDelete 7, CtxCancel 1] \<and>
   \<not> precedes (RegistryDelete 7) (ConnClose 7) (new_effects serving (snd (serve serving 7 [Env ()])))"
  by (simp add: serving_def Serve_unfold new_Accepter_def serve_def context_WithCancel_def
      Let_def new_effects_def)

section \<open>Shutdown and Close\<close>

lemma Shutdown_loop_append:
  "Shutdown_loop r pre s = (Blocked, s1) \<Longrightarrow>
     Shutdown_loop r (pre @ post) s = Shutdown_loop r post s1"
proof (induction r pre s rule: Shutdown_loop.induct)
  case (1 err s)
  then show ?case by simp
next
  case (2 err i es s)
  then show ?case by simp
next
  case (3 err es s)
  then show ?case by (auto simp: Let_def split: if_splits)
next
  case (4 err e es s)
  then show ?case by simp
qed


lemma Shutdown_loop_frame:
  "Shutdown_loop r es s = (x, s') \<Longrightarrow> \<forall>v. Par v \<notin> set es \<Longrightarrow> connDatas s' = connDatas s"
proof (induction r es s rule: Shutdown_loop.induct)
  case (1 err s)
  then show ?case by simp
next
  case (2 err i es s)
  from "2.prems"(2) have False by auto
  then show ?case ..
next
  case (3 err es s)
  then show ?case by (auto simp: Let_def split: if_splits)
next
  case (4 err e es s)
  then show ?case by auto
qed

lemma Shutdown_unfold:
  "ctxCancel s = Some i \<Longrightarrow> lis s = Some l \<Longrightarrow>
     Shutdown s r script = Shutdown_loop r script (emit [ListenerClose l] (cancel i s))"
  by (simp add: Shutdown_def Let_def)

subsection \<open>The drain\<close>



subsection \<open>The deadline\<close>

text \<open>
  Claim C3. Let \<^verbatim>\<open>Shutdown\<close> still be polling in state \<open>s1\<close> when the deadline context
  is done with error \<open>e\<close>. Then \<^verbatim>\<open>Shutdown\<close> returns \<open>e\<close> and not the result of closing
  the listener; it closes the connection handle of every entry of the registry, which
  for a registry filled by the workers is every connection registered; and it leaves
  the registry as it is. \<^verbatim>\<open>Shutdown\<close> never writes the registry: without writes by other
  goroutines the registry after \<^verbatim>\<open>Shutdown\<close> is the registry before.
\<close>

theorem Shutdown_deadline:
  assumes "ctxCancel s = Some i" and "lis s = Some l"
    and "Shutdown_loop r pre (emit [ListenerClose l] (cancel i s)) = (Blocked, s1)"
  shows "fst (Shutdown s r (pre @ Env (CtxDone e) # post)) = Returns (Some e) \<and>
         connDatas (snd (Shutdown s r (pre @ Env (CtxDone e) # post))) = connDatas s1 \<and>
         new_effects s1 (snd (Shutdown s r (pre @ Env (CtxDone e) # post))) =
           map (\<lambda>(k, d). ConnClose (conn_of d)) (connDatas s1) \<and>
         (registry_ok (connDatas s1) \<longrightarrow>
            (\<forall>c\<in>fst ` set (connDatas s1).
               ConnClose c \<in> set (new_effects s1 (snd (Shutdown s r (pre @ Env (CtxDone e) # post)))))) \<and>
         (\<forall>script. (\<forall>v. Par v \<notin> set script) \<longrightarrow>
            connDatas (snd (Shutdown s r script)) = connDatas s)"
proof -
  have "Shutdown s r (pre @ Env (CtxDone e) # post) = Shutdown_loop r (Env (CtxDone e) # post) s1"
    using Shutdown_unfold [OF assms(1,2)] Shutdown_loop_append [OF assms(3)] by simp
  then have res: "Shutdown s r (pre @ Env (CtxDone e) # post) = (Returns (Some e), close_conns s1)"
    by simp
  have eff: "new_effects s1 (close_conns s1) = map (\<lambda>(k, d). ConnClose (conn_of d)) (connDatas s1)"
    by (rule new_effects_append) simp
  have keys: "ConnClose c \<in> set (new_effects s1 (close_conns s1))"
    if "registry_ok (connDatas s1)" "c \<in> fst ` set (connDatas s1)" for c
    using that by (force simp: eff registry_ok_closes)
  have frame: "connDatas (snd (Shutdown s r script)) = connDatas s"
    if "\<forall>v. Par v \<notin> set script" for script
  proof -
    obtain x s' where run: "Shutdown_loop r script (emit [ListenerClose l] (cancel i s)) = (x, s')"
      by (cases "Shutdown_loop r script (emit [ListenerClose l] (cancel i s))")
    from Shutdown_loop_frame [OF run that] run show ?thesis
      by (simp add: Shutdown_unfold [OF assms(1,2)])
  qed
  show ?thesis
    using res eff keys frame by simp
qed

theorem Shutdown_deadline_witness:
  "ctxCancel draining = Some 0 \<and> lis draining = Some (Listener 0) \<and>
   fst (Shutdown draining None ([Env After5ms, Par (Registered 8 Background)] @
          Env (CtxDone (Error ''context deadline exceeded'')) # [])) =
     Returns (Some (Error ''context deadline exceeded'')) \<and>
   connDatas (snd (Shutdown draining None ([Env After5ms, Par (Registered 8 Background)] @
          Env (CtxDone (Error ''context deadline exceeded'')) # []))) =
     [(7, ConnData (CancelCtx 1 (CancelCtx 0 Background)) 7), (8, ConnData Background 8)] \<and>
   ConnClose 7 \<in> set (new_effects
     (snd (Shutdown_loop None [Env After5ms, Par (Registered 8 Background)]
        (emit [ListenerClose (Listener 0)] (cancel 0 draining))))
     (snd (Shutdown draining None ([Env After5ms, Par (Registered 8 Background)] @
          Env (CtxDone (Error ''context deadline exceeded'')) # []))))"
proof -
  let ?pre = "[Env After5ms, Par (Registered 8 Background)]"
  let ?s1 = "snd (Shutdown_loop None ?pre (emit [ListenerClose (Listener 0)] (cancel 0 draining)))"
  have reg: "connDatas draining = [(7, ConnData (CancelCtx 1 (CancelCtx 0 Background)) 7)]"
    by (simp add: draining_def serving_def Serve_unfold new_Accepter_def serve_def
        context_WithCancel_def Let_def)
  have a: "ctxCancel draining = Some 0"
    by (simp add: draining_def serving_def Serve_unfold new_Accepter_def serve_def
        context_WithCancel_def Let_def)
  have b: "lis draining = Some (Listener 0)"
    by (simp add: draining_def serving_def Serve_unfold new_Accepter_def serve_def
        context_WithCancel_def Let_def)
  have c: "Shutdown_loop None ?pre (emit [ListenerClose (Listener 0)] (cancel 0 draining)) =
      (Blocked, ?s1)"
    by (simp add: reg Let_def)
  have d: "connDatas ?s1 =
      [(7, ConnData (CancelCtx 1 (CancelCtx 0 Background)) 7), (8, ConnData Background 8)]"
    by (simp add: reg Let_def)
  have ok: "registry_ok (connDatas ?s1)"
    unfolding d by (simp add: registry_ok_def)
  have k: "7 \<in> fst ` set (connDatas ?s1)"
    unfolding d by simp
  from Shutdown_deadline [OF a b c, of "Error ''context deadline exceeded''" "[]"] a b d ok k
  show ?thesis
    by simp
qed

subsection \<open>Close\<close>

text \<open>
  Claim C5. \<^verbatim>\<open>Close\<close> cancels the root scope, closes the listener, closes the
  connection handle of every entry of the registry and returns exactly the result \<open>r\<close>
  of closing the listener. It has no blocking call: it returns in every state in which
  \<^verbatim>\<open>Serve\<close> has set the listener and the cancel function, whatever the handlers do, and
  leaves the registry as it is.
\<close>

theorem Close_immediate:
  assumes "ctxCancel s = Some i" and "lis s = Some l"
  shows "fst (Close s r) = Returns r \<and>
         new_effects s (snd (Close s r)) =
           CtxCancel i # ListenerClose l # map (\<lambda>(k, d). ConnClose (conn_of d)) (connDatas s) \<and>
         cancels (snd (Close s r)) = (cancels s)[i := True] \<and>
         connDatas (snd (Close s r)) = connDatas s \<and>
         (registry_ok (connDatas s) \<longrightarrow>
            (\<forall>c\<in>fst ` set (connDatas s). ConnClose c \<in> set (new_effects s (snd (Close s r)))))"
proof -
  have res: "Close s r = (Returns r, close_conns (emit [ListenerClose l] (cancel i s)))"
    using assms by (simp add: Close_def Let_def)
  have eff: "new_effects s (close_conns (emit [ListenerClose l] (cancel i s))) =
      CtxCancel i # ListenerClose l # map (\<lambda>(k, d). ConnClose (conn_of d)) (connDatas s)"
    by (rule new_effects_append) simp
  have keys: "ConnClose c \<in> set (new_effects s (close_conns (emit [ListenerClose l] (cancel i s))))"
    if "registry_ok (connDatas s)" "c \<in> fst ` set (connDatas s)" for c
    using that by (force simp: eff registry_ok_closes)
  show ?thesis
    using res eff keys by simp
qed

theorem Close_immediate_witness:
  "ctxCancel draining = Some 0 \<and> lis draining = Some (Listener 0) \<and>
   fst (Close draining (Some (Error ''close failed''))) = Returns (Some (Error ''close failed'')) \<and>
   new_effects draining (snd (Close draining (Some (Error ''close failed'')))) =
     [CtxCancel 0, ListenerClose (Listener 0), ConnClose 7] \<and>
   connDatas (snd (Close draining (Some (Error ''close failed'')))) =
     [(7, ConnData (CancelCtx 1 (CancelCtx 0 Background)) 7)]"
proof -
  have reg: "connDatas draining = [(7, ConnData (CancelCtx 1 (CancelCtx 0 Background)) 7)]"
    by (simp add: draining_def serving_def Serve_unfold new_Accepter_def serve_def
        context_WithCancel_def Let_def)
  have a: "ctxCancel draining = Some 0"
    by (simp add: draining_def serving_def Serve_unfold new_Accepter_def serve_def
        context_WithCancel_def Let_def)
  have b: "lis draining = Some (Listener 0)"
    by (simp add: draining_def serving_def Serve_unfold new_Accepter_def serve_def
        context_WithCancel_def Let_def)
  from Close_immediate [OF a b, of "Some (Error ''close failed'')"] a b reg
  show ?thesis
    by simp
qed

section \<open>ServeTLS\<close>

lemma ServeTLS_unchanged:
  assumes "has_certificate (tls_config s)" and "certFile = []" and "keyFile = []"
  shows "ServeTLS s l certFile keyFile load script = Serve s (TLSListener l (tls_config_addr s)) script"
proof (cases "TLSConfig s")
  case None
  with assms(1) show ?thesis by (simp add: has_certificate_def tls_config_def)
next
  case (Some p)
  with assms show ?thesis
    by (auto simp: ServeTLS_def has_certificate_def tls_config_def tls_config_addr_def)
qed

lemma ServeTLS_loads:
  assumes "\<not> (has_certificate (tls_config s) \<and> certFile = [] \<and> keyFile = [])"
  shows "ServeTLS s l certFile keyFile load script =
     (case snd load of
        Some err \<Rightarrow> (Returns (Some err), installed s certFile keyFile (fst load))
      | None \<Rightarrow> Serve (installed s certFile keyFile (fst load)) (TLSListener l (tls_config_addr s)) script)"
proof (cases "TLSConfig s")
  case None
  then show ?thesis
    by (cases "snd load")
       (simp_all add: ServeTLS_def installed_def tls_config_def tls_config_addr_def Let_def)
next
  case (Some p)
  with assms show ?thesis
    by (cases "snd load")
       (auto simp: ServeTLS_def installed_def has_certificate_def tls_config_def
          tls_config_addr_def Let_def)
qed

subsection \<open>Which certificate\<close>

text \<open>
  Claim C7. If the configuration has certificate material (a non-empty
  \<^verbatim>\<open>Certificates\<close> or a \<^verbatim>\<open>GetCertificate\<close>) and both file names are empty,
  \<^verbatim>\<open>ServeTLS\<close> is \<^verbatim>\<open>Serve\<close> on the TLS listener with the configuration as it is, and
  nothing is loaded. In every other case the pair is loaded from the two file names and
  stored as the only element of \<^verbatim>\<open>Certificates\<close>; when the load fails its error is
  returned and nothing else has happened: no listener set, no root scope made, no
  \<^verbatim>\<open>Accept\<close>.
\<close>

theorem ServeTLS_certificate_choice:
  "(has_certificate (tls_config s) \<and> certFile = [] \<and> keyFile = [] \<longrightarrow>
      ServeTLS s l certFile keyFile load script =
        Serve s (TLSListener l (tls_config_addr s)) script \<and>
      configs (snd (ServeTLS s l certFile keyFile load script)) = configs s \<and>
      (\<forall>a b. LoadX509KeyPair a b \<notin>
         set (new_effects s (snd (ServeTLS s l certFile keyFile load script))))) \<and>
   (\<not> (has_certificate (tls_config s) \<and> certFile = [] \<and> keyFile = []) \<longrightarrow>
      configs (snd (ServeTLS s l certFile keyFile load script)) (tls_config_addr s) =
        (tls_config s)\<lparr>Certificates := [fst load]\<rparr> \<and>
      take 1 (new_effects s (snd (ServeTLS s l certFile keyFile load script))) =
        [LoadX509KeyPair certFile keyFile] \<and>
      (snd load = None \<longrightarrow>
         lis (snd (ServeTLS s l certFile keyFile load script)) =
           Some (TLSListener l (tls_config_addr s))) \<and>
      (\<forall>err. snd load = Some err \<longrightarrow>
         fst (ServeTLS s l certFile keyFile load script) = Returns (Some err) \<and>
         new_effects s (snd (ServeTLS s l certFile keyFile load script)) =
           [LoadX509KeyPair certFile keyFile] \<and>
         lis (snd (ServeTLS s l certFile keyFile load script)) = lis s \<and>
         ctx (snd (ServeTLS s l certFile keyFile load script)) = ctx s \<and>
         cancels (snd (ServeTLS s l certFile keyFile load script)) = cancels s \<and>
         connDatas (snd (ServeTLS s l certFile keyFile load script)) = connDatas s))"
proof (intro conjI impI allI)
  assume h: "has_certificate (tls_config s) \<and> certFile = [] \<and> keyFile = []"
  then have eq: "ServeTLS s l certFile keyFile load script =
      Serve s (TLSListener l (tls_config_addr s)) script"
    by (simp add: ServeTLS_unchanged)
  show "ServeTLS s l certFile keyFile load script =
      Serve s (TLSListener l (tls_config_addr s)) script"
    by (rule eq)
  show "configs (snd (ServeTLS s l certFile keyFile load script)) = configs s"
    by (simp add: eq Serve_frame)
  show "LoadX509KeyPair a b \<notin>
      set (new_effects s (snd (ServeTLS s l certFile keyFile load script)))" for a b
    by (simp add: eq Serve_never_loads)
next
  assume h: "\<not> (has_certificate (tls_config s) \<and> certFile = [] \<and> keyFile = [])"
  let ?i = "installed s certFile keyFile (fst load)"
  let ?p = "tls_config_addr s"
  note eq = ServeTLS_loads [OF h, of l load script]
  have st: "snd (ServeTLS s l certFile keyFile load script) =
      (case snd load of Some err \<Rightarrow> ?i | None \<Rightarrow> snd (Serve ?i (TLSListener l ?p) script))"
    by (simp add: eq split: option.splits)
  show "configs (snd (ServeTLS s l certFile keyFile load script)) ?p =
      (tls_config s)\<lparr>Certificates := [fst load]\<rparr>"
    by (simp add: st Serve_frame split: option.splits)
  show "take 1 (new_effects s (snd (ServeTLS s l certFile keyFile load script))) =
      [LoadX509KeyPair certFile keyFile]"
  proof (cases "snd load")
    case None
    from Serve_effects [of ?i "TLSListener l ?p" script] obtain new where
      "trace (snd (Serve ?i (TLSListener l ?p) script)) = trace ?i @ new" by blast
    then have "trace (snd (Serve ?i (TLSListener l ?p) script)) =
        trace s @ (LoadX509KeyPair certFile keyFile # new)" by simp
    then have "new_effects s (snd (Serve ?i (TLSListener l ?p) script)) =
        LoadX509KeyPair certFile keyFile # new" by (rule new_effects_append)
    with None show ?thesis by (simp add: st)
  next
    case (Some err)
    have "new_effects s ?i = [LoadX509KeyPair certFile keyFile]"
      by (rule new_effects_append) simp
    with Some show ?thesis by (simp add: st)
  qed
  show "lis (snd (ServeTLS s l certFile keyFile load script)) = Some (TLSListener l ?p)"
    if "snd load = None"
    using that by (simp add: st Serve_frame)
  show "fst (ServeTLS s l certFile keyFile load script) = Returns (Some err)"
    if "snd load = Some err" for err
    using that by (simp add: eq)
  show "new_effects s (snd (ServeTLS s l certFile keyFile load script)) =
      [LoadX509KeyPair certFile keyFile]" if "snd load = Some err" for err
  proof -
    have "new_effects s ?i = [LoadX509KeyPair certFile keyFile]"
      by (rule new_effects_append) simp
    with that show ?thesis by (simp add: st)
  qed
  show "lis (snd (ServeTLS s l certFile keyFile load script)) = lis s"
    if "snd load = Some err" for err
    using that by (simp add: st)
  show "ctx (snd (ServeTLS s l certFile keyFile load script)) = ctx s"
    if "snd load = Some err" for err
    using that by (simp add: st)
  show "cancels (snd (ServeTLS s l certFile keyFile load script)) = cancels s"
    if "snd load = Some err" for err
    using that by (simp add: st)
  show "connDatas (snd (ServeTLS s l certFile keyFile load script)) = connDatas s"
    if "snd load = Some err" for err
    using that by (simp add: st)
qed

theorem ServeTLS_certificate_choice_witness:
  "has_certificate (tls_config tls_Accepter) \<and>
   ServeTLS tls_Accepter (Listener 0) [] [] (''unused'', None) [] =
     Serve tls_Accepter (TLSListener (Listener 0) 0) [] \<and>
   configs (snd (ServeTLS tls_Accepter (Listener 0) [] [] (''unused'', None) [])) =
     configs tls_Accepter \<and>
   \<not> has_certificate (tls_config new_Accepter) \<and>
   fst (ServeTLS new_Accepter (Listener 0) ''missing.crt'' ''missing.key''
          ([], Some (Error ''open missing.crt: no such file or directory'')) [Env (Inr 1)]) =
     Returns (Some (Error ''open missing.crt: no such file or directory'')) \<and>
   new_effects new_Accepter
     (snd (ServeTLS new_Accepter (Listener 0) ''missing.crt'' ''missing.key''
          ([], Some (Error ''open missing.crt: no such file or directory'')) [Env (Inr 1)])) =
     [LoadX509KeyPair ''missing.crt'' ''missing.key'']"
proof -
  let ?err = "Error ''open missing.crt: no such file or directory''"
  have a: "has_certificate (tls_config tls_Accepter) \<and> ([]::string) = [] \<and> ([]::string) = []"
    by (simp add: has_certificate_def tls_config_def tls_Accepter_def new_Accepter_def)
  have p: "tls_config_addr tls_Accepter = 0"
    by (simp add: tls_config_addr_def tls_Accepter_def new_Accepter_def)
  have b: "\<not> has_certificate (tls_config new_Accepter)"
    by (simp add: has_certificate_def tls_config_def new_Accepter_def)
  have c: "snd (([]::certificate), Some ?err) = Some ?err"
    by simp
  note unchanged =
    ServeTLS_certificate_choice [of tls_Accepter "[]" "[]" "Listener 0" "(''unused'', None)" "[]",
      unfolded p]
  note failed =
    ServeTLS_certificate_choice [of new_Accepter "''missing.crt''" "''missing.key''" "Listener 0"
      "([], Some ?err)" "[Env (Inr 1)]"]
  from unchanged failed a b c show ?thesis
    by blast
qed

subsection \<open>The configuration object of the caller\<close>

text \<open>
  Claim C10. When \<^verbatim>\<open>a.TLSConfig\<close> is not nil and \<^verbatim>\<open>ServeTLS\<close> loads the pair from the
  files (the configuration has no certificate material, or one of the file names is
  not empty), the object that \<^verbatim>\<open>a.TLSConfig\<close> points to is itself changed: its
  \<^verbatim>\<open>Certificates\<close> is the one certificate that the load returned, \<^verbatim>\<open>a.TLSConfig\<close> is
  the same pointer, no other object of the store is touched or made, and the TLS
  listener uses that object.
\<close>

theorem ServeTLS_overwrites_caller_config:
  assumes "TLSConfig s = Some p"
    and "\<not> has_certificate (configs s p) \<or> certFile \<noteq> [] \<or> keyFile \<noteq> []"
  shows "TLSConfig (snd (ServeTLS s l certFile keyFile load script)) = Some p \<and>
         configs (snd (ServeTLS s l certFile keyFile load script)) =
           (configs s)(p := (configs s p)\<lparr>Certificates := [fst load]\<rparr>) \<and>
         next_config (snd (ServeTLS s l certFile keyFile load script)) = next_config s \<and>
         (snd load = None \<longrightarrow>
            lis (snd (ServeTLS s l certFile keyFile load script)) = Some (TLSListener l p))"
proof -
  let ?i = "installed s certFile keyFile (fst load)"
  have h: "\<not> (has_certificate (tls_config s) \<and> certFile = [] \<and> keyFile = [])"
    using assms by (auto simp: tls_config_def)
  have p: "tls_config_addr s = p"
    using assms(1) by (simp add: tls_config_addr_def)
  have st: "snd (ServeTLS s l certFile keyFile load script) =
      (case snd load of Some err \<Rightarrow> ?i | None \<Rightarrow> snd (Serve ?i (TLSListener l p) script))"
    by (simp add: ServeTLS_loads [OF h] p split: option.splits)
  have i: "configs ?i = (configs s)(p := (configs s p)\<lparr>Certificates := [fst load]\<rparr>)"
    "next_config ?i = next_config s"
    using assms(1) by (simp_all add: installed_def tls_config_def tls_config_addr_def)
  show ?thesis
    using assms(1) i by (simp add: st Serve_frame split: option.splits)
qed

theorem ServeTLS_overwrites_caller_config_witness:
  "TLSConfig tls_Accepter = Some 0 \<and>
   Certificates (configs tls_Accepter 0) = [''cert-A''] \<and>
   TLSConfig (snd (ServeTLS tls_Accepter (Listener 0) ''server.crt'' ''server.key''
     (''cert-B'', None) [])) = Some 0 \<and>
   Certificates (configs (snd (ServeTLS tls_Accepter (Listener 0) ''server.crt'' ''server.key''
     (''cert-B'', None) [])) 0) = [''cert-B'']"
proof -
  have a: "TLSConfig tls_Accepter = Some 0"
    by (simp add: tls_Accepter_def)
  have b: "\<not> has_certificate (configs tls_Accepter 0) \<or> ''server.crt'' \<noteq> [] \<or> ''server.key'' \<noteq> []"
    by simp
  have c: "Certificates (configs tls_Accepter 0) = [''cert-A'']"
    by (simp add: tls_Accepter_def)
  from ServeTLS_overwrites_caller_config [OF a b, of "Listener 0" "(''cert-B'', None)" "[]"] a c
  show ?thesis
    by simp
qed

section \<open>Failure to bind\<close>

text \<open>
  Claim C9. When \<^verbatim>\<open>net.Listen\<close> fails, \<^verbatim>\<open>TCPListenAndServe\<close> and
  \<^verbatim>\<open>TCPListenAndServeTLS\<close> return the bind error at once. The only effect is the call
  of \<^verbatim>\<open>net.Listen\<close>: the accept loop is not entered (no \<open>Accept\<close>) and no worker is
  started (no \<open>Go\<close>), so the handler is never invoked.
\<close>

theorem listen_failure_is_returned:
  "TCPListenAndServe s address (Inl err) script =
     (Returns (Some err), emit [NetListen ''tcp'' address] s) \<and>
   TCPListenAndServeTLS s address certFile keyFile (Inl err) load script =
     (Returns (Some err), emit [NetListen ''tcp'' address] s) \<and>
   (\<forall>l. Accept l \<notin> set (new_effects s (emit [NetListen ''tcp'' address] s))) \<and>
   (\<forall>c. Go c \<notin> set (new_effects s (emit [NetListen ''tcp'' address] s)))"
  by (simp add: TCPListenAndServe_def TCPListenAndServeTLS_def)

theorem listen_failure_is_returned_witness:
  "TCPListenAndServe new_Accepter '':80'' (Inl (Error ''address in use'')) [Env (Inr 1)] =
     (Returns (Some (Error ''address in use'')), emit [NetListen ''tcp'' '':80''] new_Accepter) \<and>
   trace (emit [NetListen ''tcp'' '':80''] new_Accepter) = [NetListen ''tcp'' '':80'']"
  using listen_failure_is_returned [of new_Accepter "'':80''" "Error ''address in use''" "[Env (Inr 1)]"]
  by (simp add: new_Accepter_def)

end
